theory Spec2Isabelle
  imports Main "HOL-Library.Sublist"
begin

section \<open>Word language model: text preparation of the notebook\<close>

text \<open>
  The notebook \<^verbatim>\<open>word_language_model.ipynb\<close> turns review texts into training
  examples in four cells: \<^verbatim>\<open>parse_text\<close> and \<^verbatim>\<open>clean_text\<close> (cell 3), the
  windowing loop (cell 8), the encoding with the Keras tokenizer (cells 9 and 10) and
  the inverted lookup (cell 17). Python strings are modelled as \<^typ>\<open>string\<close>, read as
  ASCII text: the character classes below are those of Python on code points below 128.
\<close>

subsection \<open>The string operations of Python that the cells call\<close>

datatype error = ValueError

text \<open>The white space of \<^verbatim>\<open>str.split()\<close> and \<^verbatim>\<open>str.strip()\<close> below code point 128.\<close>

definition whitespace :: string where
  "whitespace = [CHR 0x09, CHR 0x0A, CHR 0x0B, CHR 0x0C, CHR 0x0D,
                 CHR 0x1C, CHR 0x1D, CHR 0x1E, CHR 0x1F, CHR 0x20]"

definition isspace :: "char \<Rightarrow> bool" where
  "isspace c = (c \<in> set whitespace)"

definition ascii_lowercase :: string where
  "ascii_lowercase = ''abcdefghijklmnopqrstuvwxyz''"

definition ascii_uppercase :: string where
  "ascii_uppercase = ''ABCDEFGHIJKLMNOPQRSTUVWXYZ''"

text \<open>\<^verbatim>\<open>string.punctuation\<close>: the 32 punctuation characters of ASCII.\<close>

definition punctuation :: string where
  "punctuation = ''!'' @ [CHR 0x22] @ ''#$%&'' @ [CHR 0x27] @ ''()*+,-./:;<=>?@[''
                 @ [CHR 0x5C] @ '']^_`{|}~''"

definition isalpha_char :: "char \<Rightarrow> bool" where
  "isalpha_char c = (c \<in> set ascii_lowercase \<or> c \<in> set ascii_uppercase)"

text \<open>\<^verbatim>\<open>w.isalpha()\<close>: at least one character, and every character a letter.\<close>

definition isalpha :: "string \<Rightarrow> bool" where
  "isalpha w = (w \<noteq> [] \<and> list_all isalpha_char w)"

definition lower_char :: "char \<Rightarrow> char" where
  "lower_char c = (case map_of (zip ascii_uppercase ascii_lowercase) c of
                     Some d \<Rightarrow> d | None \<Rightarrow> c)"

definition lower :: "string \<Rightarrow> string" where
  "lower w = map lower_char w"

definition startswith :: "string \<Rightarrow> string \<Rightarrow> bool" where
  "startswith s p = (take (length p) s = p)"

definition endswith :: "string \<Rightarrow> string \<Rightarrow> bool" where
  "endswith s p = (length p \<le> length s \<and> drop (length s - length p) s = p)"

text \<open>\<^verbatim>\<open>p in s\<close>: \<open>p\<close> occurs in \<open>s\<close> as a substring.\<close>

fun contains :: "string \<Rightarrow> string \<Rightarrow> bool" where
  "contains p [] = (p = [])"
| "contains p (c # cs) = (startswith (c # cs) p \<or> contains p cs)"

text \<open>
  \<^verbatim>\<open>s.split(sep)\<close> for a separator that is not empty (the cells pass \<^verbatim>\<open>eos\<close>, the
  tokenizer a space): the text is scanned from the left, every occurrence of the
  separator closes the current piece, and the scan goes on behind the occurrence.
\<close>

fun split_sep_from :: "string \<Rightarrow> string \<Rightarrow> string \<Rightarrow> string list" where
  "split_sep_from sep cur [] = [cur]"
| "split_sep_from sep cur (c # cs) =
     (if sep \<noteq> [] \<and> startswith (c # cs) sep
      then cur # split_sep_from sep [] (drop (length sep - 1) cs)
      else split_sep_from sep (cur @ [c]) cs)"

definition split_sep :: "string \<Rightarrow> string \<Rightarrow> string list" where
  "split_sep s sep = split_sep_from sep [] s"

text \<open>
  \<^verbatim>\<open>s.replace(old, new)\<close>: every occurrence of \<open>old\<close>, found from the left without
  overlap, becomes \<open>new\<close>; an empty \<open>old\<close> puts \<open>new\<close> around every character.
\<close>

fun replace_from :: "string \<Rightarrow> string \<Rightarrow> string \<Rightarrow> string" where
  "replace_from old new [] = []"
| "replace_from old new (c # cs) =
     (if old \<noteq> [] \<and> startswith (c # cs) old
      then new @ replace_from old new (drop (length old - 1) cs)
      else c # replace_from old new cs)"

definition replace :: "string \<Rightarrow> string \<Rightarrow> string \<Rightarrow> string" where
  "replace s old new =
     (if old = [] then new @ concat (map (\<lambda>c. c # new) s) else replace_from old new s)"

text \<open>\<^verbatim>\<open>s.split()\<close>: the pieces between runs of white space, none of them empty.\<close>

fun split_ws_from :: "string \<Rightarrow> string \<Rightarrow> string list" where
  "split_ws_from cur [] = (if cur = [] then [] else [cur])"
| "split_ws_from cur (c # cs) =
     (if isspace c then (if cur = [] then [] else [cur]) @ split_ws_from [] cs
      else split_ws_from (cur @ [c]) cs)"

definition split_ws :: "string \<Rightarrow> string list" where
  "split_ws s = split_ws_from [] s"

text \<open>\<^verbatim>\<open>s.strip()\<close>: white space removed at both ends.\<close>

definition strip :: "string \<Rightarrow> string" where
  "strip s = rev (dropWhile isspace (rev (dropWhile isspace s)))"

text \<open>\<^verbatim>\<open>sep.join(xs)\<close>.\<close>

fun join :: "string \<Rightarrow> string list \<Rightarrow> string" where
  "join sep [] = []"
| "join sep [x] = x"
| "join sep (x # y # ys) = x @ sep @ join sep (y # ys)"

text \<open>\<^verbatim>\<open>w.translate(str.maketrans("", "", deleted))\<close>: the characters of \<open>deleted\<close> removed.\<close>

definition translate_delete :: "string \<Rightarrow> string \<Rightarrow> string" where
  "translate_delete deleted w = filter (\<lambda>c. c \<notin> set deleted) w"

text \<open>\<^verbatim>\<open>xs[a:b]\<close> for \<open>0 \<le> a \<le> b\<close>.\<close>

definition slice :: "'a list \<Rightarrow> nat \<Rightarrow> nat \<Rightarrow> 'a list" where
  "slice xs a b = take (b - a) (drop a xs)"

text \<open>\<^verbatim>\<open>max(xs)\<close>, which raises \<^verbatim>\<open>ValueError\<close> on an empty list.\<close>

fun max_list :: "nat list \<Rightarrow> error + nat" where
  "max_list [] = Inl ValueError"
| "max_list (x # xs) = Inr (fold max xs x)"

text \<open>\<^verbatim>\<open>dict(pairs)\<close>: a later pair overwrites an earlier one with the same key.\<close>

definition dict_of :: "('k \<times> 'v) list \<Rightarrow> ('k \<rightharpoonup> 'v)" where
  "dict_of pairs = map_of (rev pairs)"

text \<open>\<^verbatim>\<open>len(dict(pairs))\<close>: the number of different keys.\<close>

definition dict_len :: "('k \<times> 'v) list \<Rightarrow> nat" where
  "dict_len pairs = length (remdups (map fst pairs))"

subsection \<open>Cell 3: \<^verbatim>\<open>parse_text\<close> and \<^verbatim>\<open>clean_text\<close>\<close>

definition eos :: string where
  "eos = ''<eos>''"

text \<open>
  The body of the loop of \<^verbatim>\<open>parse_text\<close>: new lines and apostrophes are removed, every
  full stop becomes the marker with a space on each side.
\<close>

definition entry :: "string \<Rightarrow> string" where
  "entry text = replace (replace (replace text [CHR 0x0A] []) [CHR 0x27] [])
                  ''.'' ('' '' @ eos @ '' '')"

text \<open>\<^verbatim>\<open>full_text += entry\<close> for every text of the data, starting from the empty text.\<close>

definition parse_text :: "string list \<Rightarrow> string" where
  "parse_text data = foldl (\<lambda>full_text text. full_text @ entry text) [] data"

definition clean_text :: "string \<Rightarrow> string list" where
  "clean_text doc =
     (let tokens = split_ws doc;
          tokens = map (\<lambda>w. if \<not> contains eos w then translate_delete punctuation w else w)
                     tokens;
          tokens = filter (\<lambda>word. isalpha word \<or> contains eos word) tokens;
          tokens = map lower tokens
      in tokens)"

subsection \<open>Cell 8: the windowing loop\<close>

definition length_seq :: nat where
  "length_seq = 10 + 1"

text \<open>
  What the body of the loop does with a line: \<open>None\<close> is the \<^verbatim>\<open>continue\<close> of the
  \<^verbatim>\<open>except\<close> branch (the unpacking \<^verbatim>\<open>front, back = line.split(eos)\<close> raises unless the
  split has exactly two pieces), \<open>Some\<close> is the line that is appended.
\<close>

definition trim_line :: "string \<Rightarrow> string option" where
  "trim_line line =
     (if contains eos line then
        (if endswith line eos then Some (strip (take (length line - 4) line))
         else if startswith line eos then Some (strip (drop 4 line))
         else (case split_sep line eos of
                 [front, back] \<Rightarrow>
                   if length front > length back then Some (strip front)
                   else Some (strip back)
               | _ \<Rightarrow> None))
      else Some line)"

text \<open>The candidate line of position \<open>i\<close>: \<^verbatim>\<open>' '.join(tokens[i-length:i])\<close>.\<close>

definition line_at :: "string list \<Rightarrow> nat \<Rightarrow> string" where
  "line_at tokens i = join '' '' (slice tokens (i - length_seq) i)"

text \<open>One run of the body of the loop, on the list \<open>sequences\<close> built so far.\<close>

definition window_step :: "string list \<Rightarrow> nat \<Rightarrow> string list \<Rightarrow> string list" where
  "window_step tokens i sequences =
     (case trim_line (line_at tokens i) of
        None \<Rightarrow> sequences
      | Some line \<Rightarrow> sequences @ [line])"

text \<open>\<^verbatim>\<open>for i in range(length, len(tokens))\<close>, from a list of positions.\<close>

definition window_loop :: "string list \<Rightarrow> nat list \<Rightarrow> string list \<Rightarrow> string list" where
  "window_loop tokens positions sequences = fold (window_step tokens) positions sequences"

definition candidate_positions :: "string list \<Rightarrow> nat list" where
  "candidate_positions tokens = [length_seq ..< length tokens]"

definition sequences :: "string list \<Rightarrow> string list" where
  "sequences tokens = window_loop tokens (candidate_positions tokens) []"

subsection \<open>Cells 9, 10 and 17: the encoding\<close>

text \<open>
  Modelled from the spec: the class \<^verbatim>\<open>Tokenizer\<close> and the function \<^verbatim>\<open>pad_sequences\<close> of
  the Keras library are called by cell 9 and are not part of the sources. Section 4.3 of
  the specification says what they do: an integer id for every distinct token of the
  windows, ids from 1, 0 for padding, every window mapped to its ids and padded on the
  left to the longest length. The definitions follow the library's behaviour for the
  arguments of the cell, \<^verbatim>\<open>Tokenizer()\<close> with its defaults: the text in lower case, the
  filter characters \<^verbatim>\<open>!"#$%&()*+,-./:;<=>?@[\]^_`{|}~\<close>, tab and new line replaced by a
  space, the words split at single spaces, empty words dropped.
\<close>

definition keras_filters :: string where
  "keras_filters = ''!'' @ [CHR 0x22] @ ''#$%&()*+,-./:;<=>?@['' @ [CHR 0x5C] @ '']^_`{|}~''
                   @ [CHR 0x09, CHR 0x0A]"

definition text_to_word_sequence :: "string \<Rightarrow> string list" where
  "text_to_word_sequence text =
     (let text = lower text;
          text = map (\<lambda>c. if c \<in> set keras_filters then CHR '' '' else c) text;
          seq = split_sep text '' ''
      in filter (\<lambda>i. i \<noteq> []) seq)"

text \<open>
  Modelled from the spec: \<^verbatim>\<open>fit_on_texts\<close> (Keras, not part of the sources) counts the
  words in the order in which they first appear.
\<close>

fun count_word :: "string \<Rightarrow> (string \<times> nat) list \<Rightarrow> (string \<times> nat) list" where
  "count_word w [] = [(w, 1)]"
| "count_word w ((k, c) # kcs) =
     (if k = w then (k, c + 1) # kcs else (k, c) # count_word w kcs)"

definition word_counts :: "string list \<Rightarrow> (string \<times> nat) list" where
  "word_counts texts =
     fold (\<lambda>text counts. fold count_word (text_to_word_sequence text) counts) texts []"

text \<open>
  Modelled from the spec: the vocabulary of \<^verbatim>\<open>fit_on_texts\<close> (Keras, not part of the
  sources), the words by falling count (a stable sort) numbered from 1; 0 is given to
  no word.
\<close>

definition sorted_voc :: "string list \<Rightarrow> string list" where
  "sorted_voc texts = map fst (sort_key (\<lambda>wc. - int (snd wc)) (word_counts texts))"

definition word_index :: "string list \<Rightarrow> (string \<times> nat) list" where
  "word_index texts = zip (sorted_voc texts) [1 ..< length (sorted_voc texts) + 1]"

text \<open>
  Modelled from the spec: \<^verbatim>\<open>texts_to_sequences\<close> (Keras, not part of the sources) maps
  every word of a text to its id and skips a word that has none.
\<close>

definition text_to_sequence :: "(string \<times> nat) list \<Rightarrow> string \<Rightarrow> nat list" where
  "text_to_sequence wi text = List.map_filter (dict_of wi) (text_to_word_sequence text)"

definition texts_to_sequences :: "(string \<times> nat) list \<Rightarrow> string list \<Rightarrow> nat list list" where
  "texts_to_sequences wi texts = map (text_to_sequence wi) texts"

text \<open>
  Modelled from the spec: \<^verbatim>\<open>pad_sequences\<close> (Keras, not part of the sources) with
  \<^verbatim>\<open>padding='pre'\<close>: a row keeps its last \<open>maxlen\<close> ids and is filled with 0 on the left.
\<close>

definition pad_sequences :: "nat list list \<Rightarrow> nat \<Rightarrow> nat list list" where
  "pad_sequences seqs maxlen =
     map (\<lambda>s. replicate (maxlen - length s) 0 @ drop (length s - maxlen) s) seqs"

text \<open>Cell 9, on the list of lines that cell 8 built.\<close>

definition tokenized_sequences :: "string list \<Rightarrow> nat list list" where
  "tokenized_sequences seqs = texts_to_sequences (word_index seqs) seqs"

definition max_sequence_len :: "string list \<Rightarrow> error + nat" where
  "max_sequence_len seqs = max_list (map length (tokenized_sequences seqs))"

definition input_sequences :: "string list \<Rightarrow> error + nat list list" where
  "input_sequences seqs =
     (case max_sequence_len seqs of
        Inl e \<Rightarrow> Inl e
      | Inr maxlen \<Rightarrow> Inr (pad_sequences (tokenized_sequences seqs) maxlen))"

text \<open>Cell 10: \<^verbatim>\<open>vocab_size = len(tokenizer.word_index) + 1\<close>.\<close>

definition vocab_size :: "string list \<Rightarrow> nat" where
  "vocab_size seqs = dict_len (word_index seqs) + 1"

text \<open>Cell 17: \<^verbatim>\<open>dict([[v,k] for k,v in tokenizer.word_index.items()])\<close>.\<close>

definition index_word_lookup :: "string list \<Rightarrow> (nat \<rightharpoonup> string)" where
  "index_word_lookup seqs = dict_of (map (\<lambda>(k, v). (v, k)) (word_index seqs))"

text \<open>A row of ids read back through the inverted lookup, one word for each id.\<close>

definition decode :: "string list \<Rightarrow> nat list \<Rightarrow> string option list" where
  "decode seqs ids = map (index_word_lookup seqs) ids"


section \<open>The text normalizer\<close>

text \<open>
  C6, as the code has it. For the records \<^verbatim>\<open>"Great food. Loved it"\<close> and
  \<^verbatim>\<open>"Terrible service."\<close>, \<^verbatim>\<open>parse_text\<close> keeps the case of the letters and appends the
  second record to the first with nothing between them, so that the text is
  \<^verbatim>\<open>"Great food <eos>  Loved itTerrible service <eos> "\<close>; \<^verbatim>\<open>clean_text\<close> then gives the
  seven tokens great, food, <eos>, loved, itterrible, service, <eos>.
\<close>

theorem C6_normalizer_example:
  "parse_text [''Great food. Loved it'', ''Terrible service.'']
     = ''Great food <eos>  Loved itTerrible service <eos> ''
   \<and> clean_text (parse_text [''Great food. Loved it'', ''Terrible service.''])
     = [''great'', ''food'', ''<eos>'', ''loved'', ''itterrible'', ''service'', ''<eos>'']"
  by code_simp

text \<open>
  C6 as the specification states it does not hold: the text is not
  \<^verbatim>\<open>"great food <eos> loved it terrible service <eos>"\<close>, and the tokens are not
  great, food, <eos>, loved, it, terrible, service, <eos>.
\<close>

theorem C6_normalizer_example_counterexample:
  "parse_text [''Great food. Loved it'', ''Terrible service.'']
     \<noteq> ''great food <eos> loved it terrible service <eos>''
   \<and> clean_text (parse_text [''Great food. Loved it'', ''Terrible service.''])
     \<noteq> [''great'', ''food'', ''<eos>'', ''loved'', ''it'', ''terrible'', ''service'',
         ''<eos>'']"
  by code_simp

text \<open>
  C7 at the record \<^verbatim>\<open>"hi <eos>! there"\<close>: \<^verbatim>\<open>clean_text\<close> tests \<^verbatim>\<open>eos in word\<close>, not
  \<^verbatim>\<open>word == eos\<close>, so the token \<^verbatim>\<open><eos>!\<close> keeps its punctuation and is not dropped,
  although it is neither alphabetic nor the marker.
\<close>

theorem C7_token_with_marker_inside_is_kept:
  "clean_text (parse_text [''hi <eos>! there'']) = [''hi'', ''<eos>!'', ''there'']
   \<and> \<not> isalpha ''<eos>!'' \<and> ''<eos>!'' \<noteq> eos"
  by code_simp

section \<open>The sequence windower\<close>

subsection \<open>Occurrences of the marker in a line\<close>

lemma eos_chars: "eos = [CHR ''<'', CHR ''e'', CHR ''o'', CHR ''s'', CHR ''>'']"
  by (simp add: eos_def)

lemma length_eos: "length eos = 5"
  by (simp add: eos_def)

lemma short_list_cases:
  assumes "length xs < 5" "xs \<noteq> []"
  obtains a where "xs = [a]" | a b where "xs = [a, b]"
    | a b c where "xs = [a, b, c]" | a b c d where "xs = [a, b, c, d]"
proof -
  from assms have "0 < length xs" by simp
  with assms have "length xs = 1 \<or> length xs = 2 \<or> length xs = 3 \<or> length xs = 4"
    by arith
  then show thesis
    using that by (auto simp: length_Suc_conv numeral_eq_Suc)
qed

lemma startswith_before_eos:
  assumes "startswith (x @ eos @ r) eos" "x \<noteq> []"
  shows "startswith x eos"
proof (cases "length x < 5")
  case True
  from True assms(2) consider a where "x = [a]" | a b where "x = [a, b]"
    | a b c where "x = [a, b, c]" | a b c d where "x = [a, b, c, d]"
    by (rule short_list_cases)
  then have False
  proof cases
    case 1 then show False using assms(1) by (simp add: startswith_def eos_chars)
  next
    case 2 then show False using assms(1) by (simp add: startswith_def eos_chars)
  next
    case 3 then show False using assms(1) by (simp add: startswith_def eos_chars)
  next
    case 4 then show False using assms(1) by (simp add: startswith_def eos_chars)
  qed
  then show ?thesis ..
next
  case False
  then show ?thesis using assms by (simp add: startswith_def length_eos)
qed

lemma endswith_after_eos:
  assumes "endswith (x @ eos @ r) eos" "r \<noteq> []"
  shows "endswith r eos"
proof (cases "length r < 5")
  case True
  have d: "drop (length x + length r) (x @ eos @ r) = eos"
    using assms(1) by (simp add: endswith_def length_eos)
  have e: "drop (length r) (eos @ r) = eos"
    using d by simp
  from True assms(2) consider a where "r = [a]" | a b where "r = [a, b]"
    | a b c where "r = [a, b, c]" | a b c d where "r = [a, b, c, d]"
    by (rule short_list_cases)
  then have False
  proof cases
    case 1 then show False using e by (simp add: eos_chars)
  next
    case 2 then show False using e by (simp add: eos_chars)
  next
    case 3 then show False using e by (simp add: eos_chars)
  next
    case 4 then show False using e by (simp add: eos_chars)
  qed
  then show ?thesis ..
next
  case False
  then show ?thesis using assms by (simp add: endswith_def length_eos)
qed

lemma startswith_contains: "startswith s p \<Longrightarrow> contains p s"
  by (cases s) (auto simp: startswith_def)

lemma contains_append_left: "contains p r \<Longrightarrow> contains p (x @ r)"
  by (induction x) auto

lemma startswith_append: "startswith (p @ r) p"
  by (simp add: startswith_def)

lemma contains_middle: "contains p (x @ p @ r)"
  by (intro contains_append_left startswith_contains startswith_append)

lemma startswith_prefix: "startswith x p \<Longrightarrow> startswith (x @ r) p"
proof -
  assume a: "startswith x p"
  then have "length (take (length p) x) = length p"
    by (simp add: startswith_def)
  then have "length p \<le> length x" by simp
  with a show ?thesis by (simp add: startswith_def)
qed

lemma contains_prefix: "contains p x \<Longrightarrow> contains p (x @ r)"
proof (induction x)
  case Nil
  then have "p = []" by simp
  then show ?case by (cases r) (auto simp: startswith_def)
next
  case (Cons a x)
  then show ?case using startswith_prefix[of "a # x" p r] by auto
qed


lemma endswith_contains: "endswith s p \<Longrightarrow> contains p s"
proof -
  assume "endswith s p"
  then have "drop (length s - length p) s = p"
    by (simp add: endswith_def)
  then have "take (length s - length p) s @ p @ [] = s"
    using append_take_drop_id[of "length s - length p" s] by simp
  moreover have "contains p (take (length s - length p) s @ p @ [])"
    by (rule contains_middle)
  ultimately show ?thesis by simp
qed

lemma split_no_occurrence:
  "\<not> contains eos s \<Longrightarrow> split_sep_from eos cur s = [cur @ s]"
  by (induction s arbitrary: cur) auto

lemma split_first_occurrence:
  "\<not> contains eos x \<Longrightarrow>
   split_sep_from eos cur (x @ eos @ r) = (cur @ x) # split_sep_from eos [] r"
proof (induction x arbitrary: cur)
  case Nil
  show ?case by (simp add: eos_chars startswith_def)
next
  case (Cons a x)
  have "\<not> startswith ((a # x) @ eos @ r) eos"
    using Cons.prems startswith_before_eos[of "a # x" r] startswith_contains[of "a # x" eos]
    by blast
  moreover have "\<not> contains eos x" using Cons.prems by simp
  ultimately show ?case using Cons.IH[of "cur @ [a]"] by simp
qed

lemma split_single_marker:
  assumes "\<not> contains eos front" "\<not> contains eos back"
  shows "split_sep (front @ eos @ back) eos = [front, back]"
  using assms by (simp add: split_sep_def split_first_occurrence split_no_occurrence)

lemma split_pieces_ge1: "1 \<le> length (split_sep_from sep cur s)"
  by (induction sep cur s rule: split_sep_from.induct) auto

lemma split_pieces_after_marker:
  "1 + length (split_sep_from eos [] r) \<le> length (split_sep_from eos cur (x @ eos @ r))"
proof (induction x arbitrary: cur rule: length_induct)
  case (1 x)
  show ?case
  proof (cases x)
    case Nil
    then show ?thesis by (simp add: eos_chars startswith_def)
  next
    case (Cons a x')
    show ?thesis
    proof (cases "startswith ((a # x') @ eos @ r) eos")
      case True
      then have sw: "startswith (a # x') eos"
        using startswith_before_eos[of "a # x'" r] by simp
      then have "length (take (length eos) (a # x')) = length eos"
        by (simp add: startswith_def)
      then have len: "4 \<le> length x'" by (simp add: length_eos)
      have "length (drop 4 x') < length x" using Cons len by simp
      then have ih: "1 + length (split_sep_from eos [] r)
                   \<le> length (split_sep_from eos [] (drop 4 x' @ eos @ r))"
        using 1 by blast
      have d: "drop (length eos - 1) (x' @ eos @ r) = drop 4 x' @ eos @ r"
        using len by (simp add: length_eos)
      have "eos \<noteq> []" by (simp add: eos_def)
      then have eq: "split_sep_from eos cur ((a # x') @ eos @ r)
                   = cur # split_sep_from eos [] (drop (length eos - 1) (x' @ eos @ r))"
        using True by (simp del: drop_append)
      show ?thesis unfolding Cons eq d using ih by simp
    next
      case False
      have "length x' < length x" using Cons by simp
      then have "1 + length (split_sep_from eos [] r)
                   \<le> length (split_sep_from eos (cur @ [a]) (x' @ eos @ r))"
        using 1 by blast
      then show ?thesis using False Cons by simp
    qed
  qed
qed

lemma split_two_markers:
  "3 \<le> length (split_sep (x @ eos @ y @ eos @ z) eos)"
proof -
  have "1 + length (split_sep_from eos [] z) \<le> length (split_sep_from eos [] (y @ eos @ z))"
    by (rule split_pieces_after_marker)
  moreover have "1 + length (split_sep_from eos [] (y @ eos @ z))
                   \<le> length (split_sep_from eos [] (x @ eos @ y @ eos @ z))"
    by (rule split_pieces_after_marker)
  moreover have "1 \<le> length (split_sep_from eos [] z)" by (rule split_pieces_ge1)
  ultimately show ?thesis by (simp add: split_sep_def)
qed

subsection \<open>The branches of the loop body and the loop\<close>

lemma trim_line_interior:
  assumes "\<not> contains eos front" "\<not> contains eos back" "front \<noteq> []" "back \<noteq> []"
  shows "trim_line (front @ eos @ back)
           = Some (strip (if length front > length back then front else back))"
proof -
  have c: "contains eos (front @ eos @ back)" by (rule contains_middle)
  have e: "\<not> endswith (front @ eos @ back) eos"
    using assms(2,4) endswith_after_eos[of front "back"] endswith_contains[of "back" eos] by blast
  have s: "\<not> startswith (front @ eos @ back) eos"
    using assms(1,3) startswith_before_eos[of front "back"] startswith_contains[of front eos]
    by blast
  have sp: "split_sep (front @ eos @ back) eos = [front, back]"
    using assms(1,2) by (rule split_single_marker)
  show ?thesis
    unfolding trim_line_def using c e s sp by simp
qed

lemma trim_line_two_markers:
  assumes "line = x @ eos @ y @ eos @ z" "\<not> startswith line eos" "\<not> endswith line eos"
  shows "trim_line line = None"
proof -
  have c: "contains eos line" unfolding assms(1) by (rule contains_middle)
  have "3 \<le> length (split_sep line eos)" unfolding assms(1) by (rule split_two_markers)
  then obtain p q r rest where "split_sep line eos = p # q # r # rest"
    by (auto simp: numeral_3_eq_3 Suc_le_length_iff)
  then show ?thesis
    unfolding trim_line_def using c assms(2,3) by simp
qed

lemma window_loop_append:
  "window_loop tokens (ps @ qs) seqs = window_loop tokens qs (window_loop tokens ps seqs)"
  by (simp add: window_loop_def)

lemma window_loop_map_filter:
  "window_loop tokens ps seqs = seqs @ List.map_filter trim_line (map (line_at tokens) ps)"
proof (induction ps arbitrary: seqs)
  case Nil
  show ?case by (simp add: window_loop_def List.map_filter_simps)
next
  case (Cons p ps)
  have "window_loop tokens (p # ps) seqs = window_loop tokens ps (window_step tokens p seqs)"
    by (simp add: window_loop_def)
  then show ?case
    by (simp add: Cons.IH window_step_def List.map_filter_simps split: option.splits)
qed

lemma line_at_last_token:
  assumes "i \<in> set (candidate_positions (xs @ [t]))"
  shows "line_at (xs @ [t]) i = line_at (xs @ [t']) i"
proof -
  from assms have "length_seq \<le> i" "i \<le> length xs"
    by (auto simp: candidate_positions_def)
  then have "slice (xs @ [t]) (i - length_seq) i = slice (xs @ [t']) (i - length_seq) i"
    by (simp add: slice_def)
  then show ?thesis by (simp add: line_at_def)
qed

lemma sequences_last_token: "sequences (xs @ [t]) = sequences (xs @ [t'])"
proof -
  have m: "map (line_at (xs @ [t])) (candidate_positions (xs @ [t]))
          = map (line_at (xs @ [t'])) (candidate_positions (xs @ [t]))"
    by (rule map_cong[OF refl]) (rule line_at_last_token)
  have p: "candidate_positions (xs @ [t]) = candidate_positions (xs @ [t'])"
    by (simp add: candidate_positions_def)
  have "sequences (xs @ [t])
          = List.map_filter trim_line (map (line_at (xs @ [t])) (candidate_positions (xs @ [t])))"
    by (simp add: sequences_def window_loop_map_filter)
  also have "\<dots> = List.map_filter trim_line
                      (map (line_at (xs @ [t'])) (candidate_positions (xs @ [t'])))"
    by (subst m) (simp only: p)
  also have "\<dots> = sequences (xs @ [t'])"
    by (simp add: sequences_def window_loop_map_filter)
  finally show ?thesis .
qed

subsection \<open>The claims on the windower\<close>

text \<open>
  C1 at the record \<^verbatim>\<open>"a. c d e f g h i j. k"\<close>: the only candidate window has a marker
  as its second token and a marker as its last token. The branch for a trailing marker
  cuts the line at its end only, and the line that is stored still contains the marker.
\<close>

theorem C1_marker_left_inside_window:
  "clean_text (parse_text [''a. c d e f g h i j. k''])
     = [''a'', ''<eos>'', ''c'', ''d'', ''e'', ''f'', ''g'', ''h'', ''i'', ''j'', ''<eos>'', ''k'']
   \<and> sequences [''a'', ''<eos>'', ''c'', ''d'', ''e'', ''f'', ''g'', ''h'', ''i'', ''j'',
                ''<eos>'', ''k'']
     = [''a <eos> c d e f g h i j <'']
   \<and> contains eos ''a <eos> c d e f g h i j <''"
  by code_simp

text \<open>
  C2 at the records \<^verbatim>\<open>"a b c d e f g h i j. k"\<close> (the marker is the last token of the
  window) and \<^verbatim>\<open>". b c d e f g h i j k l"\<close> (the marker is the first token): the marker
  has five characters and the cells cut four, \<^verbatim>\<open>line[:-4]\<close> and \<^verbatim>\<open>line[4:]\<close>, so the
  stored line is the other ten tokens and one character of the marker.
\<close>

theorem C2_edge_marker_cut_one_character_short:
  "sequences [''a'', ''b'', ''c'', ''d'', ''e'', ''f'', ''g'', ''h'', ''i'', ''j'', ''<eos>'', ''k'']
     = [''a b c d e f g h i j <'']
   \<and> join '' '' [''a'', ''b'', ''c'', ''d'', ''e'', ''f'', ''g'', ''h'', ''i'', ''j'']
     = ''a b c d e f g h i j''
   \<and> sequences [''<eos>'', ''b'', ''c'', ''d'', ''e'', ''f'', ''g'', ''h'', ''i'', ''j'', ''k'', ''l'']
     = [''> b c d e f g h i j k'']
   \<and> join '' '' [''b'', ''c'', ''d'', ''e'', ''f'', ''g'', ''h'', ''i'', ''j'', ''k'']
     = ''b c d e f g h i j k''"
  by code_simp

text \<open>
  C3. A candidate line with exactly one marker, which is neither its first nor its last
  token, is \<open>front @ eos @ back\<close> with no marker in \<open>front\<close> and none in \<open>back\<close>, both not
  empty. The loop body stores the side with more characters, stripped, and the back side
  when both have the same number of characters.
\<close>

theorem C3_interior_marker_keeps_longer_side:
  assumes "line_at tokens i = front @ eos @ back"
    and "\<not> contains eos front" and "\<not> contains eos back"
    and "front \<noteq> []" and "back \<noteq> []"
  shows "trim_line (line_at tokens i)
           = Some (strip (if length back < length front then front else back))
       \<and> window_step tokens i seqs
           = seqs @ [strip (if length back < length front then front else back)]"
  using trim_line_interior[OF assms(2-5)] assms(1) by (simp add: window_step_def)

text \<open>
  The theorem at two windows: a tie (ten characters on each side of the marker), where
  the back side is kept, and a longer front side, which is kept.
\<close>

theorem C3_interior_marker_keeps_longer_side_witness:
  "window_step [''a'', ''b'', ''c'', ''d'', ''e'', ''<eos>'', ''g'', ''h'', ''i'', ''j'', ''k'', ''l'']
     11 [] = [''g h i j k'']
   \<and> window_step [''a'', ''b'', ''c'', ''d'', ''e'', ''f'', ''g'', ''<eos>'', ''i'', ''j'', ''k'', ''l'']
     11 [] = [''a b c d e f g'']"
proof -
  let ?T = "[''a'', ''b'', ''c'', ''d'', ''e'', ''<eos>'', ''g'', ''h'', ''i'', ''j'', ''k'', ''l'']"
  let ?U = "[''a'', ''b'', ''c'', ''d'', ''e'', ''f'', ''g'', ''<eos>'', ''i'', ''j'', ''k'', ''l'']"
  have t1: "line_at ?T 11 = ''a b c d e '' @ eos @ '' g h i j k''" by code_simp
  have t2: "\<not> contains eos ''a b c d e ''" by code_simp
  have t3: "\<not> contains eos '' g h i j k''" by code_simp
  have t4: "strip '' g h i j k'' = ''g h i j k''" by code_simp
  have u1: "line_at ?U 11 = ''a b c d e f g '' @ eos @ '' i j k''" by code_simp
  have u2: "\<not> contains eos ''a b c d e f g ''" by code_simp
  have u3: "\<not> contains eos '' i j k''" by code_simp
  have u4: "strip ''a b c d e f g '' = ''a b c d e f g''" by code_simp
  have "window_step ?T 11 [] = [''g h i j k'']"
    using C3_interior_marker_keeps_longer_side[OF t1 t2 t3, of "[]"] t4 by simp
  moreover have "window_step ?U 11 [] = [''a b c d e f g'']"
    using C3_interior_marker_keeps_longer_side[OF u1 u2 u3, of "[]"] u4 by simp
  ultimately show ?thesis by simp
qed

text \<open>
  The \<^verbatim>\<open>try\<close> is reached only by a line that neither ends nor starts with the marker.
  Such a line with more than one marker is discarded: the body stores nothing, the lines
  stored before are unchanged and the loop goes on as if the position were not there.
\<close>

lemma interior_split_failure_skips_one_window:
  assumes "line_at tokens i = x @ eos @ y @ eos @ z"
    and "\<not> startswith (line_at tokens i) eos" and "\<not> endswith (line_at tokens i) eos"
  shows "trim_line (line_at tokens i) = None
       \<and> window_step tokens i seqs = seqs
       \<and> window_loop tokens (ps @ i # qs) seqs = window_loop tokens (ps @ qs) seqs"
proof -
  have n: "trim_line (line_at tokens i) = None"
    using assms by (rule trim_line_two_markers)
  then have s: "\<And>ss. window_step tokens i ss = ss"
    by (simp add: window_step_def)
  have "window_loop tokens (ps @ i # qs) seqs
          = window_loop tokens qs (window_step tokens i (window_loop tokens ps seqs))"
    by (simp add: window_loop_def)
  also have "\<dots> = window_loop tokens (ps @ qs) seqs"
    by (simp add: s window_loop_def)
  finally show ?thesis using n s by simp
qed

text \<open>
  C4 at the record \<^verbatim>\<open>"a. c d e f g h i j. k"\<close>: the only candidate window,
  a, <eos>, c, d, e, f, g, h, i, j, <eos>, has two markers. Its line ends with the marker,
  so the branch for a trailing marker runs, the split is never tried, and the window is
  not discarded: its line is stored with a marker inside. The same two markers one place
  to the left, in a, <eos>, c, d, e, f, g, h, i, <eos>, k, reach the split and the window
  is discarded.
\<close>

theorem C4_two_marker_window_with_edge_marker_is_stored:
  "clean_text (parse_text [''a. c d e f g h i j. k''])
     = [''a'', ''<eos>'', ''c'', ''d'', ''e'', ''f'', ''g'', ''h'', ''i'', ''j'', ''<eos>'', ''k'']
   \<and> line_at [''a'', ''<eos>'', ''c'', ''d'', ''e'', ''f'', ''g'', ''h'', ''i'', ''j'', ''<eos>'', ''k'']
        11
     = ''a '' @ eos @ '' c d e f g h i j '' @ eos
   \<and> window_step
        [''a'', ''<eos>'', ''c'', ''d'', ''e'', ''f'', ''g'', ''h'', ''i'', ''j'', ''<eos>'', ''k'']
        11 []
     = [''a <eos> c d e f g h i j <'']
   \<and> sequences
        [''a'', ''<eos>'', ''c'', ''d'', ''e'', ''f'', ''g'', ''h'', ''i'', ''j'', ''<eos>'', ''k'']
     = [''a <eos> c d e f g h i j <'']
   \<and> line_at [''a'', ''<eos>'', ''c'', ''d'', ''e'', ''f'', ''g'', ''h'', ''i'', ''<eos>'', ''k'', ''l'']
        11
     = ''a '' @ eos @ '' c d e f g h i '' @ eos @ '' k''
   \<and> sequences
        [''a'', ''<eos>'', ''c'', ''d'', ''e'', ''f'', ''g'', ''h'', ''i'', ''<eos>'', ''k'', ''l'']
     = []"
  by code_simp

text \<open>
  C10. The loop runs over \<open>max(0, len(tokens) - 11)\<close> positions; what it stores are the
  trimmed candidate lines of these positions; no candidate window reads the last token
  of the stream, so that replacing the last token changes nothing; and a stream of 11
  tokens or fewer gives no line.
\<close>

theorem C10_candidate_windows:
  "int (length (candidate_positions tokens)) = max 0 (int (length tokens) - 11)
   \<and> sequences tokens
       = List.map_filter trim_line (map (line_at tokens) (candidate_positions tokens))
   \<and> (\<forall>i \<in> set (candidate_positions tokens).
         slice tokens (i - length_seq) i = slice (butlast tokens) (i - length_seq) i)
   \<and> sequences (xs @ [t]) = sequences (xs @ [t'])
   \<and> (length tokens \<le> 11 \<longrightarrow> sequences tokens = [])"
proof -
  have a: "int (length (candidate_positions tokens)) = max 0 (int (length tokens) - 11)"
    by (simp add: candidate_positions_def length_seq_def)
  have b: "sequences tokens
       = List.map_filter trim_line (map (line_at tokens) (candidate_positions tokens))"
    by (simp add: sequences_def window_loop_map_filter)
  have c: "slice tokens (i - length_seq) i = slice (butlast tokens) (i - length_seq) i"
    if "i \<in> set (candidate_positions tokens)" for i
  proof -
    from that have "length_seq \<le> i" "i < length tokens"
      by (auto simp: candidate_positions_def)
    then show ?thesis
      by (simp add: slice_def drop_butlast take_butlast)
  qed
  have d: "sequences tokens = []" if "length tokens \<le> 11"
    using that by (simp add: b candidate_positions_def length_seq_def List.map_filter_simps)
  show ?thesis using a b c d sequences_last_token[of xs t t'] by blast
qed

theorem C10_candidate_windows_witness:
  "sequences [''a'', ''b'', ''c'', ''d'', ''e'', ''f'', ''g'', ''h'', ''i'', ''j'', ''k''] = []
   \<and> length (candidate_positions
        [''a'', ''b'', ''c'', ''d'', ''e'', ''f'', ''g'', ''h'', ''i'', ''j'', ''k'', ''l'', ''m'']) = 2
   \<and> slice [''a'', ''b'', ''c'', ''d'', ''e'', ''f'', ''g'', ''h'', ''i'', ''j'', ''k'', ''l'', ''m'']
        (12 - length_seq) 12
       = [''b'', ''c'', ''d'', ''e'', ''f'', ''g'', ''h'', ''i'', ''j'', ''k'', ''l'']"
proof -
  let ?S = "[''a'', ''b'', ''c'', ''d'', ''e'', ''f'', ''g'', ''h'', ''i'', ''j'', ''k'']"
  let ?T = "[''a'', ''b'', ''c'', ''d'', ''e'', ''f'', ''g'', ''h'', ''i'', ''j'', ''k'', ''l'', ''m'']"
  have "length ?S \<le> 11" by simp
  then have s: "sequences ?S = []"
    using C10_candidate_windows[of ?S] by blast
  have "int (length (candidate_positions ?T)) = max 0 (int (length ?T) - 11)"
    using C10_candidate_windows[of ?T] by blast
  then have n: "length (candidate_positions ?T) = 2" by simp
  have "12 \<in> set (candidate_positions ?T)" by code_simp
  then have "slice ?T (12 - length_seq) 12 = slice (butlast ?T) (12 - length_seq) 12"
    using C10_candidate_windows[of ?T] by blast
  moreover have "slice (butlast ?T) (12 - length_seq) 12
       = [''b'', ''c'', ''d'', ''e'', ''f'', ''g'', ''h'', ''i'', ''j'', ''k'', ''l'']"
    by code_simp
  ultimately show ?thesis using s n by simp
qed

section \<open>The vocabulary encoder\<close>

subsection \<open>The vocabulary\<close>

lemma dict_of_Some_iff:
  "distinct (map fst pairs) \<Longrightarrow> dict_of pairs k = Some v \<longleftrightarrow> (k, v) \<in> set pairs"
proof -
  assume "distinct (map fst pairs)"
  then have "distinct (map fst (rev pairs))" by (simp add: rev_map[symmetric])
  then have "map_of (rev pairs) k = Some v \<longleftrightarrow> (k, v) \<in> set (rev pairs)"
    by (rule map_of_eq_Some_iff)
  then show ?thesis by (simp add: dict_of_def)
qed

lemma keys_count_word: "map fst (count_word w kcs) = (if w \<in> fst ` set kcs then map fst kcs else map fst kcs @ [w])"
  by (induction kcs) (auto split: if_splits)

lemma distinct_count_word:
  "distinct (map fst kcs) \<Longrightarrow> distinct (map fst (count_word w kcs))"
  by (simp add: keys_count_word)

lemma set_count_word: "fst ` set (count_word w kcs) = insert w (fst ` set kcs)"
proof -
  have "set (map fst (count_word w kcs)) = insert w (set (map fst kcs))"
    by (auto simp: keys_count_word)
  then show ?thesis by simp
qed

lemma fold_count_word:
  "distinct (map fst kcs) \<Longrightarrow>
   distinct (map fst (fold count_word ws kcs))
   \<and> fst ` set (fold count_word ws kcs) = set ws \<union> fst ` set kcs"
proof (induction ws arbitrary: kcs)
  case Nil
  then show ?case by simp
next
  case (Cons w ws)
  have "distinct (map fst (count_word w kcs))"
    using Cons.prems by (rule distinct_count_word)
  from Cons.IH[OF this] show ?case
    by (simp add: set_count_word)
qed

lemma fold_texts_count:
  "distinct (map fst kcs) \<Longrightarrow>
   distinct (map fst (fold (\<lambda>text counts. fold count_word (text_to_word_sequence text) counts)
                        texts kcs))
   \<and> fst ` set (fold (\<lambda>text counts. fold count_word (text_to_word_sequence text) counts)
                   texts kcs)
       = (\<Union>text \<in> set texts. set (text_to_word_sequence text)) \<union> fst ` set kcs"
proof (induction texts arbitrary: kcs)
  case Nil
  then show ?case by simp
next
  case (Cons t texts)
  have d: "distinct (map fst (fold count_word (text_to_word_sequence t) kcs))"
    and s: "fst ` set (fold count_word (text_to_word_sequence t) kcs)
              = set (text_to_word_sequence t) \<union> fst ` set kcs"
    using fold_count_word[OF Cons.prems] by auto
  from Cons.IH[OF d] show ?case
    by (auto simp: s)
qed

lemma word_counts_keys:
  "distinct (map fst (word_counts texts))"
  "fst ` set (word_counts texts) = (\<Union>text \<in> set texts. set (text_to_word_sequence text))"
  using fold_texts_count[of "[]" texts] by (simp_all add: word_counts_def)

lemma distinct_fst_insort_key:
  "distinct (map fst (insort_key f x xs)) = distinct (map fst (x # xs))"
  by (induction xs) (auto simp: set_insort_key)

lemma distinct_fst_sort_key:
  "distinct (map fst (sort_key f xs)) = distinct (map fst xs)"
  by (induction xs) (simp_all add: distinct_fst_insort_key)

lemma word_index_zip:
  "word_index texts = zip (sorted_voc texts) [1 ..< length (sorted_voc texts) + 1]"
  by (simp add: word_index_def)

lemma sorted_voc_distinct: "distinct (sorted_voc texts)"
  by (simp add: sorted_voc_def distinct_fst_sort_key word_counts_keys)

lemma sorted_voc_set:
  "set (sorted_voc texts) = (\<Union>text \<in> set texts. set (text_to_word_sequence text))"
proof -
  have "set (sorted_voc texts) = fst ` set (word_counts texts)"
    by (simp add: sorted_voc_def)
  then show ?thesis by (simp add: word_counts_keys)
qed

lemma word_index_fst: "map fst (word_index texts) = sorted_voc texts"
proof -
  have "length (sorted_voc texts) = length [1 ..< length (sorted_voc texts) + 1]"
    by (simp only: length_upt add_diff_cancel_right')
  then show ?thesis by (simp only: word_index_zip map_fst_zip)
qed

lemma word_index_snd: "map snd (word_index texts) = [1 ..< length (sorted_voc texts) + 1]"
proof -
  have "length (sorted_voc texts) = length [1 ..< length (sorted_voc texts) + 1]"
    by (simp only: length_upt add_diff_cancel_right')
  then show ?thesis by (simp only: word_index_zip map_snd_zip)
qed

lemma word_index_distinct:
  "distinct (map fst (word_index texts))" "distinct (map snd (word_index texts))"
  by (simp_all only: word_index_fst word_index_snd sorted_voc_distinct distinct_upt)

lemma word_index_lookup:
  "dict_of (word_index texts) w = Some i \<longleftrightarrow> (w, i) \<in> set (word_index texts)"
  using word_index_distinct(1) by (rule dict_of_Some_iff)

lemma index_word_lookup_iff:
  "index_word_lookup texts i = Some w \<longleftrightarrow> (w, i) \<in> set (word_index texts)"
proof -
  have "map fst (map (\<lambda>(k, v). (v, k)) (word_index texts)) = map snd (word_index texts)"
    by (simp add: case_prod_unfold)
  then have "distinct (map fst (map (\<lambda>(k, v). (v, k)) (word_index texts)))"
    by (simp only: word_index_distinct)
  then have "dict_of (map (\<lambda>(k, v). (v, k)) (word_index texts)) i = Some w
               \<longleftrightarrow> (i, w) \<in> set (map (\<lambda>(k, v). (v, k)) (word_index texts))"
    by (rule dict_of_Some_iff)
  then show ?thesis by (auto simp: index_word_lookup_def)
qed

lemma word_index_ids:
  "snd ` set (word_index texts) = {1 .. length (sorted_voc texts)}"
proof -
  have "snd ` set (word_index texts) = set (map snd (word_index texts))" by simp
  also have "\<dots> = set [1 ..< length (sorted_voc texts) + 1]"
    by (simp only: word_index_snd)
  also have "\<dots> = {1 .. length (sorted_voc texts)}" by auto
  finally show ?thesis .
qed

lemma word_index_words:
  "fst ` set (word_index texts) = set (sorted_voc texts)"
proof -
  have "fst ` set (word_index texts) = set (map fst (word_index texts))" by simp
  then show ?thesis by (simp only: word_index_fst)
qed

lemma word_has_id:
  assumes "w \<in> set (sorted_voc texts)"
  obtains i where "(w, i) \<in> set (word_index texts)"
  using assms word_index_words[of texts] by force

lemma decode_encode_words:
  assumes "set ws \<subseteq> set (sorted_voc texts)"
  shows "decode texts (List.map_filter (dict_of (word_index texts)) ws) = map Some ws"
  using assms
proof (induction ws)
  case Nil
  show ?case by (simp add: decode_def)
next
  case (Cons w ws)
  then obtain i where i: "(w, i) \<in> set (word_index texts)"
    using word_has_id[of w texts] by auto
  then have "dict_of (word_index texts) w = Some i" "index_word_lookup texts i = Some w"
    by (simp_all add: word_index_lookup index_word_lookup_iff)
  moreover have "decode texts (List.map_filter (dict_of (word_index texts)) ws) = map Some ws"
    using Cons by simp
  ultimately show ?case by (simp add: decode_def)
qed

lemma encode_ids_range:
  assumes "i \<in> set (text_to_sequence (word_index texts) line)"
  shows "1 \<le> i \<and> i \<le> length (sorted_voc texts)"
proof -
  from assms obtain w where "dict_of (word_index texts) w = Some i"
    by (auto simp: text_to_sequence_def List.map_filter_def)
  then have "i \<in> snd ` set (word_index texts)"
    by (force simp: word_index_lookup)
  then show ?thesis by (simp add: word_index_ids)
qed

lemma vocab_size_card:
  "vocab_size texts = card (set (sorted_voc texts)) + 1"
  by (simp add: vocab_size_def dict_len_def length_remdups_card_conv word_index_fst)

lemma vocab_size_length:
  "vocab_size texts = length (sorted_voc texts) + 1"
  by (simp add: vocab_size_card distinct_card sorted_voc_distinct)

lemma max_list_bound:
  assumes "max_list xs = Inr m"
  shows "m \<in> set xs \<and> (\<forall>x \<in> set xs. x \<le> m)"
proof (cases xs)
  case Nil
  then show ?thesis using assms by simp
next
  case (Cons y ys)
  then have "m = fold max ys y"
    using assms by simp
  then have "m = Max (set (y # ys))"
    by (simp only: Max.set_eq_fold)
  then show ?thesis using Cons by (metis List.finite_set Max_ge Max_in set_empty list.distinct(1))
qed

lemma pad_row:
  "length s \<le> maxlen \<Longrightarrow>
   replicate (maxlen - length s) 0 @ drop (length s - maxlen) s
     = replicate (maxlen - length s) (0::nat) @ s
   \<and> length (replicate (maxlen - length s) (0::nat) @ s) = maxlen"
  by simp

subsection \<open>Windows of lowercase words as the tokenizer reads them\<close>

lemma lowercase_not_uppercase: "c \<in> set ascii_lowercase \<Longrightarrow> c \<notin> set ascii_uppercase"
  by (auto simp: ascii_lowercase_def ascii_uppercase_def)

lemma lower_char_lowercase: "c \<in> set ascii_lowercase \<Longrightarrow> lower_char c = c"
proof -
  assume "c \<in> set ascii_lowercase"
  then have "c \<notin> set ascii_uppercase" by (rule lowercase_not_uppercase)
  moreover have "length ascii_uppercase = length ascii_lowercase"
    by (simp add: ascii_lowercase_def ascii_uppercase_def)
  ultimately have "map_of (zip ascii_uppercase ascii_lowercase) c = None"
    using map_of_zip_is_None[of ascii_uppercase ascii_lowercase c] by blast
  then show ?thesis by (simp only: lower_char_def option.case)
qed

lemma lowercase_not_filtered:
  "c \<in> set ascii_lowercase \<Longrightarrow> c \<notin> set keras_filters \<and> c \<noteq> CHR '' ''"
  by (auto simp: ascii_lowercase_def keras_filters_def)

lemma space_kept: "lower_char (CHR '' '') = CHR '' '' \<and> CHR '' '' \<notin> set keras_filters"
  by (simp add: lower_char_def ascii_lowercase_def ascii_uppercase_def keras_filters_def)

lemma join_chars:
  "\<forall>t \<in> set toks. set t \<subseteq> A \<Longrightarrow> set (join '' '' toks) \<subseteq> insert (CHR '' '') A"
  by (induction "'' ''" toks rule: join.induct) auto

lemma split_space_word:
  "CHR '' '' \<notin> set t \<Longrightarrow>
   split_sep_from '' '' cur (t @ r) = split_sep_from '' '' (cur @ t) r"
  by (induction t arbitrary: cur) (auto simp: startswith_def)

lemma split_space_join:
  "\<forall>t \<in> set toks. CHR '' '' \<notin> set t \<Longrightarrow> toks \<noteq> [] \<Longrightarrow>
   split_sep_from '' '' cur (join '' '' toks) = (cur @ hd toks) # tl toks"
proof (induction toks arbitrary: cur)
  case Nil
  then show ?case by simp
next
  case (Cons x ys)
  show ?case
  proof (cases ys)
    case Nil
    have "split_sep_from '' '' cur (x @ []) = split_sep_from '' '' (cur @ x) []"
      using Cons.prems by (intro split_space_word) simp
    then show ?thesis using Nil by simp
  next
    case (Cons y zs)
    have "split_sep_from '' '' cur (x @ '' '' @ join '' '' (y # zs))
            = split_sep_from '' '' (cur @ x) ('' '' @ join '' '' (y # zs))"
      using Cons.prems by (intro split_space_word) simp
    also have "\<dots> = (cur @ x) # split_sep_from '' '' [] (join '' '' (y # zs))"
      by (simp add: startswith_def)
    also have "split_sep_from '' '' [] (join '' '' (y # zs)) = ([] @ hd (y # zs)) # tl (y # zs)"
      using Cons.prems Cons.IH[of "[]"] Cons by simp
    finally show ?thesis using Cons by simp
  qed
qed

lemma words_of_joined_tokens:
  assumes "\<forall>t \<in> set toks. t \<noteq> [] \<and> set t \<subseteq> set ascii_lowercase"
  shows "text_to_word_sequence (join '' '' toks) = toks"
proof -
  have chars: "set (join '' '' toks) \<subseteq> insert (CHR '' '') (set ascii_lowercase)"
    using assms by (intro join_chars) simp
  have l: "lower (join '' '' toks) = join '' '' toks"
    unfolding lower_def using chars lower_char_lowercase space_kept
    by (intro map_idI) auto
  have f: "map (\<lambda>c. if c \<in> set keras_filters then CHR '' '' else c) (join '' '' toks)
             = join '' '' toks"
    using chars lowercase_not_filtered space_kept by (intro map_idI) auto
  have nosp: "\<forall>t \<in> set toks. CHR '' '' \<notin> set t"
    using assms lowercase_not_filtered by blast
  show ?thesis
  proof (cases toks)
    case Nil
    then show ?thesis by (simp add: text_to_word_sequence_def lower_def split_sep_def)
  next
    case (Cons a list)
    then have "split_sep (join '' '' toks) '' '' = toks"
      using split_space_join[OF nosp, of "[]"] by (simp add: split_sep_def)
    moreover have "filter (\<lambda>i. i \<noteq> []) toks = toks"
      using assms by (intro filter_True) simp
    ultimately show ?thesis
      by (simp add: text_to_word_sequence_def l f)
  qed
qed

lemma tokenized_row_words:
  assumes "line \<in> set seqs"
  shows "set (text_to_word_sequence line) \<subseteq> set (sorted_voc seqs)"
  using assms by (auto simp: sorted_voc_set)

lemma words_of_clean_windows:
  assumes "\<forall>toks \<in> set tokss. \<forall>t \<in> set toks. t \<noteq> [] \<and> set t \<subseteq> set ascii_lowercase"
  shows "(\<Union>line \<in> set (map (join '' '') tokss). set (text_to_word_sequence line))
           = (\<Union>toks \<in> set tokss. set toks)"
proof -
  have "text_to_word_sequence (join '' '' toks) = toks" if "toks \<in> set tokss" for toks
    using assms that by (intro words_of_joined_tokens) blast
  then show ?thesis by simp
qed

subsection \<open>The words of a stored line\<close>

text \<open>
  The tokenizer counts the runs of characters between spaces. Cutting a text at either
  end cannot add a run, and every line that the windower stores is a piece of its
  candidate line.
\<close>

lemma split_space_nonempty: "split_sep_from '' '' cur s \<noteq> []"
  using split_pieces_ge1[of "'' ''" cur s] by auto

lemma split_space_step:
  "split_sep_from '' '' cur (c # cs)
     = (if c = CHR '' '' then cur # split_sep_from '' '' [] cs
        else split_sep_from '' '' (cur @ [c]) cs)"
  by (simp add: startswith_def)

lemma split_space_cur:
  "split_sep_from '' '' cur s
     = (cur @ hd (split_sep_from '' '' [] s)) # tl (split_sep_from '' '' [] s)"
proof (induction s arbitrary: cur)
  case Nil
  show ?case by simp
next
  case (Cons c cs)
  show ?case
  proof (cases "c = CHR '' ''")
    case True
    then show ?thesis by (simp add: split_space_step del: split_sep_from.simps(2))
  next
    case False
    have "split_sep_from '' '' cur (c # cs) = split_sep_from '' '' (cur @ [c]) cs"
      using False by (simp add: split_space_step del: split_sep_from.simps(2))
    also have "\<dots> = ((cur @ [c]) @ hd (split_sep_from '' '' [] cs))
                        # tl (split_sep_from '' '' [] cs)"
      by (rule Cons.IH)
    also have "\<dots> = (cur @ hd (split_sep_from '' '' [c] cs)) # tl (split_sep_from '' '' [c] cs)"
      using Cons.IH[of "[c]"] by simp
    also have "split_sep_from '' '' [c] cs = split_sep_from '' '' [] (c # cs)"
      using False by (simp add: split_space_step del: split_sep_from.simps(2))
    finally show ?thesis .
  qed
qed

lemma split_space_append:
  "split_sep_from '' '' cur (s @ CHR '' '' # t)
     = split_sep_from '' '' cur s @ split_sep_from '' '' [] t"
proof (induction s arbitrary: cur)
  case Nil
  show ?case by (simp add: split_space_step del: split_sep_from.simps(2))
next
  case (Cons c cs)
  show ?case
    using Cons.IH[of "[]"] Cons.IH[of "cur @ [c]"]
    by (simp add: split_space_step del: split_sep_from.simps(2))
qed

lemma split_space_snoc:
  "c \<noteq> CHR '' '' \<Longrightarrow>
   split_sep_from '' '' cur (s @ [c])
     = butlast (split_sep_from '' '' cur s) @ [last (split_sep_from '' '' cur s) @ [c]]"
proof (induction s arbitrary: cur)
  case Nil
  then show ?case by (simp add: split_space_step del: split_sep_from.simps(2))
next
  case (Cons a s)
  have ne: "\<And>k. split_sep_from '' '' k s \<noteq> []"
    by (rule split_space_nonempty)
  show ?case
    using Cons.IH[OF Cons.prems, of "[]"] Cons.IH[OF Cons.prems, of "cur @ [a]"] ne
    by (simp add: split_space_step del: split_sep_from.simps(2))
qed

lemma words_drop_char:
  "length (filter (\<lambda>p. p \<noteq> []) (split_sep_from '' '' [] s))
     \<le> length (filter (\<lambda>p. p \<noteq> []) (split_sep_from '' '' [] (c # s)))"
proof (cases "c = CHR '' ''")
  case True
  then show ?thesis by (simp add: split_space_step del: split_sep_from.simps(2))
next
  case False
  obtain p ps where ps: "split_sep_from '' '' [] s = p # ps"
    using split_space_nonempty[of "[]" s] by (cases "split_sep_from '' '' [] s") auto
  have "split_sep_from '' '' [] (c # s) = split_sep_from '' '' [c] s"
    using False by (simp add: split_space_step del: split_sep_from.simps(2))
  also have "\<dots> = ([c] @ p) # ps"
    using split_space_cur[of "[c]" s] ps by simp
  finally show ?thesis using ps by simp
qed

lemma words_drop_prefix:
  "length (filter (\<lambda>p. p \<noteq> []) (split_sep_from '' '' [] s))
     \<le> length (filter (\<lambda>p. p \<noteq> []) (split_sep_from '' '' [] (t @ s)))"
proof (induction t)
  case Nil
  show ?case by simp
next
  case (Cons c t)
  have "length (filter (\<lambda>p. p \<noteq> []) (split_sep_from '' '' [] (t @ s)))
     \<le> length (filter (\<lambda>p. p \<noteq> []) (split_sep_from '' '' [] (c # (t @ s))))"
    by (rule words_drop_char)
  with Cons show ?case by (simp del: split_sep_from.simps(2))
qed

lemma words_drop_last_char:
  "length (filter (\<lambda>p. p \<noteq> []) (split_sep_from '' '' [] s))
     \<le> length (filter (\<lambda>p. p \<noteq> []) (split_sep_from '' '' [] (s @ [c])))"
proof (cases "c = CHR '' ''")
  case True
  then show ?thesis using split_space_append[of "[]" s "[]"] by simp
next
  case False
  let ?ps = "split_sep_from '' '' [] s"
  have "?ps = butlast ?ps @ [last ?ps]"
    using split_space_nonempty[of "[]" s] by simp
  then have "length (filter (\<lambda>p. p \<noteq> []) ?ps)
      = length (filter (\<lambda>p. p \<noteq> []) (butlast ?ps @ [last ?ps]))"
    by simp
  also have "\<dots> \<le> length (filter (\<lambda>p. p \<noteq> []) (butlast ?ps @ [last ?ps @ [c]]))"
    by simp
  finally show ?thesis using split_space_snoc[OF False, of "[]" s] by simp
qed

lemma words_drop_suffix:
  "length (filter (\<lambda>p. p \<noteq> []) (split_sep_from '' '' [] s))
     \<le> length (filter (\<lambda>p. p \<noteq> []) (split_sep_from '' '' [] (s @ t)))"
proof (induction t rule: rev_induct)
  case Nil
  show ?case by simp
next
  case (snoc c t)
  have "length (filter (\<lambda>p. p \<noteq> []) (split_sep_from '' '' [] (s @ t)))
     \<le> length (filter (\<lambda>p. p \<noteq> []) (split_sep_from '' '' [] ((s @ t) @ [c])))"
    by (rule words_drop_last_char)
  with snoc show ?case by simp
qed

lemma words_of_sublist:
  assumes "sublist u s"
  shows "length (text_to_word_sequence u) \<le> length (text_to_word_sequence s)"
proof -
  let ?k = "\<lambda>text. map (\<lambda>c. if c \<in> set keras_filters then CHR '' '' else c) (lower text)"
  from assms obtain a b where s: "s = a @ u @ b" by (auto simp: sublist_def)
  have "length (filter (\<lambda>p. p \<noteq> []) (split_sep_from '' '' [] (?k u)))
     \<le> length (filter (\<lambda>p. p \<noteq> []) (split_sep_from '' '' [] (?k u @ ?k b)))"
    by (rule words_drop_suffix)
  also have "\<dots> \<le> length (filter (\<lambda>p. p \<noteq> []) (split_sep_from '' '' [] (?k a @ ?k u @ ?k b)))"
    by (rule words_drop_prefix)
  also have "?k a @ ?k u @ ?k b = ?k s" by (simp add: s lower_def)
  finally show ?thesis by (simp add: text_to_word_sequence_def split_sep_def)
qed

lemma words_of_join:
  "length (text_to_word_sequence (join '' '' toks))
     = sum_list (map (\<lambda>t. length (text_to_word_sequence t)) toks)"
proof (induction "'' ''" toks rule: join.induct)
  case 1
  show ?case by (simp add: text_to_word_sequence_def split_sep_def lower_def)
next
  case (2 x)
  show ?case by simp
next
  case (3 x y ys)
  let ?k = "\<lambda>text. map (\<lambda>c. if c \<in> set keras_filters then CHR '' '' else c) (lower text)"
  have "?k (join '' '' (x # y # ys)) = ?k x @ CHR '' '' # ?k (join '' '' (y # ys))"
    using space_kept by (simp add: lower_def)
  then have "split_sep_from '' '' [] (?k (join '' '' (x # y # ys)))
               = split_sep_from '' '' [] (?k x) @ split_sep_from '' '' [] (?k (join '' '' (y # ys)))"
    by (simp only: split_space_append)
  then have "length (text_to_word_sequence (join '' '' (x # y # ys)))
      = length (text_to_word_sequence x) + length (text_to_word_sequence (join '' '' (y # ys)))"
    by (simp add: text_to_word_sequence_def split_sep_def)
  then show ?case using 3 by simp
qed

lemma word_of_token:
  assumes "t = eos \<or> (t \<noteq> [] \<and> set t \<subseteq> set ascii_lowercase)"
  shows "length (text_to_word_sequence t) = 1"
proof (cases "t = eos")
  case True
  have "text_to_word_sequence eos = [''eos'']" by code_simp
  then show ?thesis using True by simp
next
  case False
  then have "text_to_word_sequence (join '' '' [t]) = [t]"
    using assms by (intro words_of_joined_tokens) simp
  then show ?thesis by simp
qed

lemma words_of_window:
  assumes "\<forall>t \<in> set w. t = eos \<or> (t \<noteq> [] \<and> set t \<subseteq> set ascii_lowercase)"
  shows "length (text_to_word_sequence (join '' '' w)) = length w"
proof -
  have "sum_list (map (\<lambda>t. length (text_to_word_sequence t)) w) = length w"
    using assms
  proof (induction w)
    case Nil
    show ?case by simp
  next
    case (Cons t w)
    then have "length (text_to_word_sequence t) = 1" by (intro word_of_token) simp
    with Cons show ?case by simp
  qed
  then show ?thesis by (simp only: words_of_join)
qed

lemma split_piece_sublist:
  "p \<in> set (split_sep_from sep cur s) \<Longrightarrow> sublist p (cur @ s)"
proof (induction sep cur s rule: split_sep_from.induct)
  case (1 sep cur)
  then show ?case by simp
next
  case (2 sep cur c cs)
  show ?case
  proof (cases "sep \<noteq> [] \<and> startswith (c # cs) sep")
    case True
    then have "p = cur \<or> p \<in> set (split_sep_from sep [] (drop (length sep - 1) cs))"
      using "2.prems" by auto
    then show ?thesis
    proof
      assume "p = cur"
      then show ?thesis by simp
    next
      assume "p \<in> set (split_sep_from sep [] (drop (length sep - 1) cs))"
      then have "sublist p ([] @ drop (length sep - 1) cs)"
        using True "2.IH"(1) by blast
      then have "sublist p (drop (length sep - 1) cs)" by simp
      moreover have "sublist (drop (length sep - 1) cs) (cur @ c # cs)"
        by (metis sublist_drop sublist_order.order.trans sublist_append_leftI sublist_Cons_right)
      ultimately show ?thesis by (rule sublist_order.order.trans)
    qed
  next
    case False
    then have "p \<in> set (split_sep_from sep (cur @ [c]) cs)"
      using "2.prems" by auto
    then have "sublist p ((cur @ [c]) @ cs)"
      using False "2.IH"(2) by blast
    then show ?thesis by simp
  qed
qed

lemma strip_sublist: "sublist (strip s) s"
proof -
  have "sublist (dropWhile isspace (rev (dropWhile isspace s))) (rev (dropWhile isspace s))"
    by (rule sublist_dropWhile)
  then have "sublist (strip s) (dropWhile isspace s)"
    by (simp add: strip_def sublist_rev_left)
  moreover have "sublist (dropWhile isspace s) s" by (rule sublist_dropWhile)
  ultimately show ?thesis by (rule sublist_order.order.trans)
qed

lemma trim_line_sublist:
  assumes "trim_line line = Some l"
  shows "sublist l line"
proof -
  consider (none) "\<not> contains eos line"
    | (last) "contains eos line" "endswith line eos"
    | (first) "contains eos line" "\<not> endswith line eos" "startswith line eos"
    | (inner) "contains eos line" "\<not> endswith line eos" "\<not> startswith line eos"
    by blast
  then show ?thesis
  proof cases
    case none
    then show ?thesis using assms by (simp add: trim_line_def)
  next
    case last
    then have "l = strip (take (length line - 4) line)"
      using assms by (simp add: trim_line_def)
    then show ?thesis
      using strip_sublist[of "take (length line - 4) line"] sublist_take[of "length line - 4" line]
      by (metis sublist_order.order.trans)
  next
    case first
    then have "l = strip (drop 4 line)"
      using assms by (simp add: trim_line_def)
    then show ?thesis
      using strip_sublist[of "drop 4 line"] sublist_drop[of 4 line]
      by (metis sublist_order.order.trans)
  next
    case inner
    then obtain front bk where sp: "split_sep line eos = [front, bk]"
      and l: "l = strip (if length front > length bk then front else bk)"
      using assms
      by (auto simp: trim_line_def split: list.splits if_splits)
    have "sublist front line" "sublist bk line"
      using split_piece_sublist[of _ eos "[]" line] sp by (simp_all add: split_sep_def)
    then have "sublist (if length front > length bk then front else bk) line" by simp
    then show ?thesis
      unfolding l using strip_sublist sublist_order.order.trans by blast
  qed
qed

lemma contains_sublist: "contains p s \<Longrightarrow> sublist p s"
proof (induction s)
  case Nil
  then show ?case by simp
next
  case (Cons c cs)
  show ?case
  proof (cases "startswith (c # cs) p")
    case True
    then have "p = take (length p) (c # cs)" by (simp add: startswith_def)
    then show ?thesis by (metis sublist_take)
  next
    case False
    then have "sublist p cs" using Cons by simp
    then show ?thesis by (simp add: sublist_Cons_right)
  qed
qed

lemma plain_line_has_no_marker:
  assumes "\<forall>t \<in> set w. t \<noteq> [] \<and> set t \<subseteq> set ascii_lowercase"
  shows "\<not> contains eos (join '' '' w)"
proof
  assume "contains eos (join '' '' w)"
  then have "set eos \<subseteq> set (join '' '' w)"
    by (intro set_mono_sublist contains_sublist)
  moreover have "set (join '' '' w) \<subseteq> insert (CHR '' '') (set ascii_lowercase)"
    using assms by (intro join_chars) simp
  ultimately have "CHR ''<'' \<in> insert (CHR '' '') (set ascii_lowercase)"
    by (auto simp: eos_def)
  then show False by (simp add: ascii_lowercase_def)
qed

lemma set_map_filter:
  "set (List.map_filter f xs) = {y. \<exists>x \<in> set xs. f x = Some y}"
  by (induction xs) (auto simp: List.map_filter_simps split: option.splits)

lemma sequences_from_positions:
  "l \<in> set (sequences tokens)
     \<longleftrightarrow> (\<exists>i \<in> set (candidate_positions tokens). trim_line (line_at tokens i) = Some l)"
  by (auto simp: sequences_def window_loop_map_filter set_map_filter)

lemma candidate_window:
  assumes "i \<in> set (candidate_positions tokens)"
  shows "length (slice tokens (i - length_seq) i) = length_seq"
    and "set (slice tokens (i - length_seq) i) \<subseteq> set tokens"
proof -
  from assms have b: "length_seq \<le> i" "i < length tokens"
    by (auto simp: candidate_positions_def)
  then show "length (slice tokens (i - length_seq) i) = length_seq"
    by (simp add: slice_def)
  show "set (slice tokens (i - length_seq) i) \<subseteq> set tokens"
    unfolding slice_def by (meson set_take_subset set_drop_subset subset_trans)
qed

lemma encoded_length:
  assumes "l \<in> set seqs"
  shows "length (text_to_sequence (word_index seqs) l) = length (text_to_word_sequence l)"
proof -
  have "decode seqs (text_to_sequence (word_index seqs) l) = map Some (text_to_word_sequence l)"
    unfolding text_to_sequence_def
    using assms by (intro decode_encode_words tokenized_row_words)
  then have "length (decode seqs (text_to_sequence (word_index seqs) l))
               = length (map Some (text_to_word_sequence l))"
    by simp
  then show ?thesis by (simp add: decode_def)
qed

lemma stored_line_words:
  assumes tok: "\<forall>t \<in> set tokens. t = eos \<or> (t \<noteq> [] \<and> set t \<subseteq> set ascii_lowercase)"
    and l: "l \<in> set (sequences tokens)"
  shows "length (text_to_sequence (word_index (sequences tokens)) l) \<le> length_seq"
proof -
  from l have "\<exists>i \<in> set (candidate_positions tokens). trim_line (line_at tokens i) = Some l"
    by (simp only: sequences_from_positions)
  then obtain i where i: "i \<in> set (candidate_positions tokens)"
    and t: "trim_line (line_at tokens i) = Some l"
    by (elim bexE)
  let ?w = "slice tokens (i - length_seq) i"
  have "\<forall>t \<in> set ?w. t = eos \<or> (t \<noteq> [] \<and> set t \<subseteq> set ascii_lowercase)"
  proof
    fix t assume "t \<in> set ?w"
    with candidate_window(2)[OF i] have "t \<in> set tokens" by (rule subsetD)
    with tok show "t = eos \<or> (t \<noteq> [] \<and> set t \<subseteq> set ascii_lowercase)" by (rule bspec)
  qed
  then have "length (text_to_word_sequence (join '' '' ?w)) = length ?w"
    by (rule words_of_window)
  then have "length (text_to_word_sequence (line_at tokens i)) = length_seq"
    by (simp only: line_at_def candidate_window(1)[OF i])
  moreover have "length (text_to_word_sequence l)
                   \<le> length (text_to_word_sequence (line_at tokens i))"
    using t by (intro words_of_sublist trim_line_sublist)
  ultimately show ?thesis by (simp only: encoded_length[OF l])
qed

lemma full_window_is_stored:
  assumes tok: "\<forall>t \<in> set tokens. t = eos \<or> (t \<noteq> [] \<and> set t \<subseteq> set ascii_lowercase)"
    and i: "i \<in> set (candidate_positions tokens)"
    and free: "eos \<notin> set (slice tokens (i - length_seq) i)"
  shows "line_at tokens i \<in> set (sequences tokens)"
    and "length (text_to_sequence (word_index (sequences tokens)) (line_at tokens i))
           = length_seq"
proof -
  let ?w = "slice tokens (i - length_seq) i"
  have plain: "\<forall>t \<in> set ?w. t \<noteq> [] \<and> set t \<subseteq> set ascii_lowercase"
  proof
    fix t assume w: "t \<in> set ?w"
    with candidate_window(2)[OF i] have "t \<in> set tokens" by (rule subsetD)
    with tok have "t = eos \<or> (t \<noteq> [] \<and> set t \<subseteq> set ascii_lowercase)" by (rule bspec)
    moreover from w free have "t \<noteq> eos" by (rule_tac notI) simp
    ultimately show "t \<noteq> [] \<and> set t \<subseteq> set ascii_lowercase" by (elim disjE) (erule notE)
  qed
  then have "\<not> contains eos (join '' '' ?w)" by (rule plain_line_has_no_marker)
  then have "trim_line (line_at tokens i) = Some (line_at tokens i)"
    by (simp add: trim_line_def line_at_def)
  with i have "\<exists>j \<in> set (candidate_positions tokens).
                 trim_line (line_at tokens j) = Some (line_at tokens i)"
    by (rule bexI[rotated])
  then show m: "line_at tokens i \<in> set (sequences tokens)"
    by (simp only: sequences_from_positions)
  have "text_to_word_sequence (join '' '' ?w) = ?w"
    using plain by (rule words_of_joined_tokens)
  then have "length (text_to_word_sequence (line_at tokens i)) = length_seq"
    by (simp only: line_at_def candidate_window(1)[OF i])
  then show "length (text_to_sequence (word_index (sequences tokens)) (line_at tokens i))
           = length_seq"
    by (simp only: encoded_length[OF m])
qed

subsection \<open>The claims on the encoder\<close>

text \<open>
  Cell 9 pads to \<^verbatim>\<open>max_sequence_len\<close>, the length of the longest encoded line. With no
  line at all \<^verbatim>\<open>max\<close> raises; otherwise there is a result, it has one row for each line,
  every row is the ids of its line with zeros on the left, and every row has the length
  of the longest encoded line.
\<close>

lemma padded_rows_have_the_longest_length:
  "(seqs = [] \<longrightarrow> input_sequences seqs = Inl ValueError)
   \<and> (seqs \<noteq> [] \<longrightarrow>
        (\<exists>m rows. max_sequence_len seqs = Inr m \<and> input_sequences seqs = Inr rows
           \<and> m \<in> set (map length (tokenized_sequences seqs))
           \<and> (\<forall>s \<in> set (tokenized_sequences seqs). length s \<le> m)
           \<and> rows = map (\<lambda>s. replicate (m - length s) 0 @ s) (tokenized_sequences seqs)
           \<and> length rows = length seqs
           \<and> (\<forall>row \<in> set rows. length row = m)))"
proof (cases "seqs = []")
  case True
  then show ?thesis
    by (simp add: input_sequences_def max_sequence_len_def tokenized_sequences_def
        texts_to_sequences_def)
next
  case False
  let ?ts = "tokenized_sequences seqs"
  have len: "length ?ts = length seqs"
    by (simp add: tokenized_sequences_def texts_to_sequences_def)
  then have "map length ?ts \<noteq> []" using False by auto
  then obtain m where m: "max_list (map length ?ts) = Inr m"
    by (cases "map length ?ts") auto
  have b: "m \<in> set (map length ?ts)" "\<forall>x \<in> set (map length ?ts). x \<le> m"
    using max_list_bound[OF m] by auto
  then have le: "\<forall>s \<in> set ?ts. length s \<le> m" by simp
  let ?rows = "map (\<lambda>s. replicate (m - length s) 0 @ s) ?ts"
  have "pad_sequences ?ts m = ?rows"
    unfolding pad_sequences_def using le by (intro map_cong) auto
  then have r: "input_sequences seqs = Inr ?rows"
    by (simp add: input_sequences_def max_sequence_len_def m)
  have "\<forall>row \<in> set ?rows. length row = m" using le by auto
  then show ?thesis
    using False m r b(1) le len by (simp add: max_sequence_len_def)
qed

text \<open>
  C5, as the code has it. The tokens of the stream are lowercase alphabetic words or the
  marker. If at least one candidate window holds no marker, the longest encoded line has
  the window size, and every row after padding has the window size, 11. In any case no
  encoded line is longer than the window size, and the rows have the length of the
  longest one; a stream that gives no line makes \<^verbatim>\<open>max\<close> raise.
\<close>

theorem C5_padded_rows_have_the_window_size:
  assumes "\<forall>t \<in> set tokens. t = eos \<or> (t \<noteq> [] \<and> set t \<subseteq> set ascii_lowercase)"
  shows "(sequences tokens = [] \<longrightarrow> input_sequences (sequences tokens) = Inl ValueError)
   \<and> (sequences tokens \<noteq> [] \<longrightarrow>
        (\<exists>m rows. max_sequence_len (sequences tokens) = Inr m
           \<and> input_sequences (sequences tokens) = Inr rows
           \<and> rows = map (\<lambda>s. replicate (m - length s) 0 @ s)
                       (tokenized_sequences (sequences tokens))
           \<and> length rows = length (sequences tokens)
           \<and> (\<forall>row \<in> set rows. length row = m)
           \<and> m \<le> length_seq))
   \<and> ((\<exists>i \<in> set (candidate_positions tokens). eos \<notin> set (slice tokens (i - length_seq) i))
        \<longrightarrow> (\<exists>rows. input_sequences (sequences tokens) = Inr rows
               \<and> max_sequence_len (sequences tokens) = Inr length_seq
               \<and> rows \<noteq> []
               \<and> (\<forall>row \<in> set rows. length row = length_seq)))"
proof -
  let ?S = "sequences tokens"
  let ?ts = "tokenized_sequences ?S"
  have ts: "?ts = map (text_to_sequence (word_index ?S)) ?S"
    by (simp add: tokenized_sequences_def texts_to_sequences_def)
  have bound: "\<forall>s \<in> set ?ts. length s \<le> length_seq"
    using stored_line_words[OF assms] by (auto simp: ts)
  have a: "?S = [] \<longrightarrow> input_sequences ?S = Inl ValueError"
    using padded_rows_have_the_longest_length[of ?S] by (rule conjunct1)
  have g: "?S \<noteq> [] \<longrightarrow>
        (\<exists>m rows. max_sequence_len ?S = Inr m \<and> input_sequences ?S = Inr rows
           \<and> m \<in> set (map length ?ts)
           \<and> (\<forall>s \<in> set ?ts. length s \<le> m)
           \<and> rows = map (\<lambda>s. replicate (m - length s) 0 @ s) ?ts
           \<and> length rows = length ?S
           \<and> (\<forall>row \<in> set rows. length row = m))"
    using padded_rows_have_the_longest_length[of ?S] by (rule conjunct2)
  have b: "?S \<noteq> [] \<longrightarrow>
        (\<exists>m rows. max_sequence_len ?S = Inr m
           \<and> input_sequences ?S = Inr rows
           \<and> rows = map (\<lambda>s. replicate (m - length s) 0 @ s) ?ts
           \<and> length rows = length ?S
           \<and> (\<forall>row \<in> set rows. length row = m)
           \<and> m \<le> length_seq)"
  proof
    assume "?S \<noteq> []"
    with g obtain m rows where m1: "max_sequence_len ?S = Inr m"
      and m2: "input_sequences ?S = Inr rows"
      and m3: "m \<in> set (map length ?ts)"
      and m5: "rows = map (\<lambda>s. replicate (m - length s) 0 @ s) ?ts"
      and m6: "length rows = length ?S"
      and m7: "\<forall>row \<in> set rows. length row = m"
      by (elim impE exE conjE) assumption
    from m3 bound have m8: "m \<le> length_seq" by auto
    show "\<exists>m rows. max_sequence_len ?S = Inr m
           \<and> input_sequences ?S = Inr rows
           \<and> rows = map (\<lambda>s. replicate (m - length s) 0 @ s) ?ts
           \<and> length rows = length ?S
           \<and> (\<forall>row \<in> set rows. length row = m)
           \<and> m \<le> length_seq"
      by (intro exI[of _ m] exI[of _ rows] conjI m1 m2 m5 m6 m7 m8)
  qed
  have c: "(\<exists>i \<in> set (candidate_positions tokens). eos \<notin> set (slice tokens (i - length_seq) i))
        \<longrightarrow> (\<exists>rows. input_sequences ?S = Inr rows
               \<and> max_sequence_len ?S = Inr length_seq
               \<and> rows \<noteq> []
               \<and> (\<forall>row \<in> set rows. length row = length_seq))"
  proof
    assume "\<exists>i \<in> set (candidate_positions tokens).
              eos \<notin> set (slice tokens (i - length_seq) i)"
    then obtain i where i: "i \<in> set (candidate_positions tokens)"
      and free: "eos \<notin> set (slice tokens (i - length_seq) i)"
      by (elim bexE)
    have mem: "line_at tokens i \<in> set ?S"
      by (rule full_window_is_stored(1)[OF assms i free])
    have len: "length (text_to_sequence (word_index ?S) (line_at tokens i)) = length_seq"
      by (rule full_window_is_stored(2)[OF assms i free])
    from mem have ne: "?S \<noteq> []" by auto
    with g obtain m rows where m1: "max_sequence_len ?S = Inr m"
      and m2: "input_sequences ?S = Inr rows"
      and m3: "m \<in> set (map length ?ts)"
      and m4: "\<forall>s \<in> set ?ts. length s \<le> m"
      and m6: "length rows = length ?S"
      and m7: "\<forall>row \<in> set rows. length row = m"
      by (elim impE exE conjE) assumption
    have "text_to_sequence (word_index ?S) (line_at tokens i) \<in> set ?ts"
      using mem by (simp add: ts)
    with m4 len have "length_seq \<le> m" by auto
    moreover from m3 bound have "m \<le> length_seq" by auto
    ultimately have eq: "m = length_seq" by simp
    have r: "rows \<noteq> []" using m6 ne by auto
    show "\<exists>rows. input_sequences ?S = Inr rows
               \<and> max_sequence_len ?S = Inr length_seq
               \<and> rows \<noteq> []
               \<and> (\<forall>row \<in> set rows. length row = length_seq)"
      using m1 m2 m7 r unfolding eq by (intro exI[of _ rows] conjI)
  qed
  show ?thesis by (intro conjI a b c)
qed

text \<open>
  The theorem at the stream a, b, c, d, e, f, g, h, i, j, k, <eos>, m: the first window
  holds no marker, the second ends with it, and both rows have length 11.
\<close>

theorem C5_padded_rows_have_the_window_size_witness:
  "\<exists>rows. input_sequences
       (sequences [''a'', ''b'', ''c'', ''d'', ''e'', ''f'', ''g'', ''h'', ''i'', ''j'', ''k'', ''<eos>'', ''m''])
       = Inr rows
     \<and> rows \<noteq> [] \<and> list_all (\<lambda>row. length row = 11) rows"
proof -
  let ?T = "[''a'', ''b'', ''c'', ''d'', ''e'', ''f'', ''g'', ''h'', ''i'', ''j'', ''k'', ''<eos>'', ''m'']"
  have tok: "\<forall>t \<in> set ?T. t = eos \<or> (t \<noteq> [] \<and> set t \<subseteq> set ascii_lowercase)"
    by (simp add: eos_def ascii_lowercase_def)
  have "11 \<in> set (candidate_positions ?T)" by code_simp
  moreover have "eos \<notin> set (slice ?T (11 - length_seq) 11)" by code_simp
  ultimately have
    "\<exists>i \<in> set (candidate_positions ?T). eos \<notin> set (slice ?T (i - length_seq) i)"
    by blast
  with C5_padded_rows_have_the_window_size[OF tok, THEN conjunct2, THEN conjunct2]
  have "\<exists>rows. input_sequences (sequences ?T) = Inr rows
               \<and> max_sequence_len (sequences ?T) = Inr length_seq
               \<and> rows \<noteq> []
               \<and> (\<forall>row \<in> set rows. length row = length_seq)"
    by (rule mp)
  then obtain rows where "input_sequences (sequences ?T) = Inr rows" "rows \<noteq> []"
    "\<forall>row \<in> set rows. length row = length_seq"
    by (elim exE conjE)
  then show ?thesis by (auto simp: list_all_iff length_seq_def)
qed

text \<open>
  C5 as the specification states it does not hold for every stream: the stream
  a, <eos>, c, d, e, f, g, h, i, j, k, l has one candidate window, its marker is
  inside, the longer side has nine words, and the only row has length 9, not 11.
\<close>

theorem C5_padded_length_is_window_size_counterexample:
  "\<not> (\<forall>tokens rows. input_sequences (sequences tokens) = Inr rows
         \<longrightarrow> (\<forall>row \<in> set rows. length row = length_seq))"
proof
  let ?T = "[''a'', ''<eos>'', ''c'', ''d'', ''e'', ''f'', ''g'', ''h'', ''i'', ''j'', ''k'', ''l'']"
  assume a: "\<forall>tokens rows. input_sequences (sequences tokens) = Inr rows
         \<longrightarrow> (\<forall>row \<in> set rows. length row = length_seq)"
  have "input_sequences (sequences ?T) = Inr [[1, 2, 3, 4, 5, 6, 7, 8, 9]]" by code_simp
  with a have "\<forall>row \<in> set [[1, 2, 3, 4, 5, 6, 7, 8, 9 :: nat]]. length row = length_seq"
    by blast
  then show False by (simp add: length_seq_def)
qed

text \<open>
  The id of every word of the vocabulary is mapped back to the word by the inverted
  lookup, and every word that the tokenizer reads in a line has an id. A line that is
  encoded and decoded id by id gives the words that the tokenizer reads in it; these are
  the tokens of the line when the line is made of lowercase alphabetic tokens joined by
  single spaces.
\<close>

lemma vocabulary_round_trip:
  "(\<forall>w i. dict_of (word_index seqs) w = Some i \<longrightarrow> index_word_lookup seqs i = Some w)
   \<and> (\<forall>line \<in> set seqs. \<forall>w \<in> set (text_to_word_sequence line).
         \<exists>i. dict_of (word_index seqs) w = Some i \<and> index_word_lookup seqs i = Some w)
   \<and> (\<forall>line \<in> set seqs.
         decode seqs (text_to_sequence (word_index seqs) line)
           = map Some (text_to_word_sequence line))
   \<and> (\<forall>toks. join '' '' toks \<in> set seqs
         \<and> (\<forall>t \<in> set toks. t \<noteq> [] \<and> set t \<subseteq> set ascii_lowercase)
         \<longrightarrow> decode seqs (text_to_sequence (word_index seqs) (join '' '' toks))
               = map Some toks)"
proof -
  have a: "index_word_lookup seqs i = Some w" if "dict_of (word_index seqs) w = Some i" for w i
    using that by (simp add: word_index_lookup index_word_lookup_iff)
  have b: "\<exists>i. dict_of (word_index seqs) w = Some i \<and> index_word_lookup seqs i = Some w"
    if "line \<in> set seqs" "w \<in> set (text_to_word_sequence line)" for line w
  proof -
    from that have "w \<in> set (sorted_voc seqs)" using tokenized_row_words by blast
    then obtain i where "(w, i) \<in> set (word_index seqs)" by (rule word_has_id)
    then show ?thesis by (auto simp: word_index_lookup index_word_lookup_iff)
  qed
  have c: "decode seqs (text_to_sequence (word_index seqs) line)
             = map Some (text_to_word_sequence line)"
    if "line \<in> set seqs" for line
    unfolding text_to_sequence_def
    using that by (intro decode_encode_words tokenized_row_words)
  have d: "decode seqs (text_to_sequence (word_index seqs) (join '' '' toks)) = map Some toks"
    if "join '' '' toks \<in> set seqs" "\<forall>t \<in> set toks. t \<noteq> [] \<and> set t \<subseteq> set ascii_lowercase"
    for toks
    using c[OF that(1)] words_of_joined_tokens[OF that(2)] by simp
  show ?thesis
    apply (intro conjI allI impI ballI)
    subgoal by (rule a)
    subgoal by (rule b)
    subgoal by (rule c)
    subgoal using d by blast
    done
qed

text \<open>
  C8 at the record \<^verbatim>\<open>"a. c d e f g h i j. k"\<close>: the windower stores the line
  \<^verbatim>\<open>"a <eos> c d e f g h i j <"\<close>, with a marker inside and one character of the marker
  at its end. Its tokens are a, <eos>, c, d, e, f, g, h, i, j, <; encoded and decoded it
  gives a, eos, c, d, e, f, g, h, i, j.
\<close>

theorem C8_stored_line_with_marker_does_not_round_trip:
  "sequences (clean_text (parse_text [''a. c d e f g h i j. k'']))
     = [''a <eos> c d e f g h i j <'']
   \<and> split_ws ''a <eos> c d e f g h i j <''
     = [''a'', ''<eos>'', ''c'', ''d'', ''e'', ''f'', ''g'', ''h'', ''i'', ''j'', ''<'']
   \<and> decode [''a <eos> c d e f g h i j <'']
        (text_to_sequence (word_index [''a <eos> c d e f g h i j <''])
           ''a <eos> c d e f g h i j <'')
     = map Some [''a'', ''eos'', ''c'', ''d'', ''e'', ''f'', ''g'', ''h'', ''i'', ''j'']"
  by code_simp

text \<open>
  The vocabulary size is the number of distinct words that the tokenizer observes in the
  lines, plus one; the ids of the words are exactly 1 up to that number, one id for each
  word and one word for each id, so 0 is the id of no word; and every id in an encoded
  line is at least 1 and below the vocabulary size. When every line is made of lowercase
  alphabetic tokens joined by single spaces, the observed words are these tokens.
\<close>

lemma vocabulary_size_counts_observed_words:
  "vocab_size seqs = card (\<Union>line \<in> set seqs. set (text_to_word_sequence line)) + 1
   \<and> fst ` set (word_index seqs) = (\<Union>line \<in> set seqs. set (text_to_word_sequence line))
   \<and> snd ` set (word_index seqs)
       = {1 .. card (\<Union>line \<in> set seqs. set (text_to_word_sequence line))}
   \<and> distinct (map fst (word_index seqs)) \<and> distinct (map snd (word_index seqs))
   \<and> (\<forall>row \<in> set (tokenized_sequences seqs). \<forall>i \<in> set row. 1 \<le> i \<and> i < vocab_size seqs)
   \<and> (\<forall>tokss. seqs = map (join '' '') tokss
         \<and> (\<forall>toks \<in> set tokss. \<forall>t \<in> set toks. t \<noteq> [] \<and> set t \<subseteq> set ascii_lowercase)
         \<longrightarrow> vocab_size seqs = card (\<Union>toks \<in> set tokss. set toks) + 1)"
proof -
  have u: "(\<Union>line \<in> set seqs. set (text_to_word_sequence line)) = set (sorted_voc seqs)"
    by (simp add: sorted_voc_set)
  have n: "card (set (sorted_voc seqs)) = length (sorted_voc seqs)"
    by (rule distinct_card[OF sorted_voc_distinct])
  have r: "1 \<le> i \<and> i < vocab_size seqs"
    if "row \<in> set (tokenized_sequences seqs)" "i \<in> set row" for row i
  proof -
    from that obtain line where "i \<in> set (text_to_sequence (word_index seqs) line)"
      by (auto simp: tokenized_sequences_def texts_to_sequences_def)
    then show ?thesis using encode_ids_range[of i seqs line] by (simp add: vocab_size_length)
  qed
  have v: "vocab_size seqs = card (\<Union>toks \<in> set tokss. set toks) + 1"
    if "seqs = map (join '' '') tokss"
      "\<forall>toks \<in> set tokss. \<forall>t \<in> set toks. t \<noteq> [] \<and> set t \<subseteq> set ascii_lowercase"
    for tokss
    using words_of_clean_windows[OF that(2)] that(1) u
    by (simp add: vocab_size_card)
  have "vocab_size seqs = card (set (sorted_voc seqs)) + 1
   \<and> fst ` set (word_index seqs) = set (sorted_voc seqs)
   \<and> snd ` set (word_index seqs) = {1 .. length (sorted_voc seqs)}
   \<and> distinct (map fst (word_index seqs)) \<and> distinct (map snd (word_index seqs))"
    by (simp add: vocab_size_card word_index_words word_index_ids word_index_distinct)
  then show ?thesis
    unfolding u n using r v by blast
qed

text \<open>
  C9 at the record \<^verbatim>\<open>"a b c d e f g h i j. k"\<close>: the windower stores the line
  \<^verbatim>\<open>"a b c d e f g h i j <"\<close>, which has eleven distinct tokens, the last of them the
  character that the cut of the marker leaves behind. The tokenizer gives that token no
  id, and the vocabulary size is 11, not 12. At the record \<^verbatim>\<open>"EOS. c d e f g h i j. k"\<close>
  the stored line holds the word eos and the marker, which the tokenizer reads as the
  same word: eleven distinct tokens, vocabulary size 10.
\<close>

theorem C9_vocabulary_size_at_stored_line_with_marker:
  "sequences (clean_text (parse_text [''a b c d e f g h i j. k'']))
     = [''a b c d e f g h i j <'']
   \<and> card (\<Union>line \<in> set [''a b c d e f g h i j <'']. set (split_ws line)) = 11
   \<and> vocab_size [''a b c d e f g h i j <''] = 11
   \<and> sequences (clean_text (parse_text [''EOS. c d e f g h i j. k'']))
     = [''eos <eos> c d e f g h i j <'']
   \<and> card (\<Union>line \<in> set [''eos <eos> c d e f g h i j <'']. set (split_ws line)) = 11
   \<and> vocab_size [''eos <eos> c d e f g h i j <''] = 10"
  by code_simp

end
